theory Spec2Isabelle
  imports Main "HOL-Library.Word"
begin

unbundle bit_operations_syntax

section \<open>The TAP / mailbox bridge of \<open>sw/eth_dpi.c\<close>\<close>

text \<open>
  The program is one C function, \<open>eth_dpi_main\<close>, with three helpers (\<open>fd_read\<close>,
  \<open>fd_write\<close>, \<open>print_bytes\<close>). Everything it does is a call to the operating system or
  to the peer (the DPI functions of \<open>eth_dpi.h\<close>), so the model threads two things through
  the code: the memory that starts at the global frame buffer, and the trace of calls made so
  far. What the outside world answers to each call is an input of the model: one record for
  the start-up calls and one record per pass of the main loop. The main loop never ends by
  itself, so it recurses on the list of per-pass answers; when the list is used up the
  outcome is \<open>Running\<close>.

  The \<open>int\<close> values of the C code are integers here: the only arithmetic on them is
  \<open>tap_fd + 1\<close> and the two loop counters, which stay below the lengths they count to.

  The buffer is an array of \<open>MTU_SIZE\<close> bytes, and the code indexes it with counters that
  it compares with nothing but a length it was given. The memory is therefore a function from
  the offset (counted from \<open>&buffer[0]\<close>) to the byte stored there: the offsets below
  \<open>MTU_SIZE\<close> are the array, and a store at a larger offset goes through as it does on the
  machine. Each call of \<open>host_rx_pkt_get_data\<close> is recorded with the offset it stores to,
  so a store outside the array can be read off the trace.
\<close>

subsection \<open>Constants\<close>

type_synonym byte = "8 word"

type_synonym memory = "nat \<Rightarrow> byte"

definition MTU_SIZE :: nat where
  "MTU_SIZE = 1500"

text \<open>Values of the Linux headers the source includes (\<open>fcntl.h\<close>, \<open>linux/if.h\<close>,
  \<open>linux/if_tun.h\<close>, \<open>errno.h\<close>).\<close>

definition O_RDWR :: int where "O_RDWR = 2"
definition O_NONBLOCK :: int where "O_NONBLOCK = 2048"
definition IFF_TAP :: int where "IFF_TAP = 2"
definition IFF_NO_PI :: int where "IFF_NO_PI = 4096"
definition IFNAMSIZ :: nat where "IFNAMSIZ = 16"
definition EINTR :: int where "EINTR = 4"
definition EAGAIN :: int where "EAGAIN = 11"

subsection \<open>Calls, messages and outcomes\<close>

datatype msg =
    OpenFailed int
  | SetNameFailed int int
  | TapReady string
  | SelectFailed int int
  | TapRd int
  | Hex byte
  | Newline
  | BadPacket int
  | SendPacket int

text \<open>\<open>EvRead fd n\<close> is \<open>read(fd, buffer, n)\<close>. \<open>EvWrite fd n bs\<close> is
  \<open>write(fd, buffer, n)\<close>, with the count as the code passes it and the bytes at the offsets
  \<open>0\<close> to \<open>n - 1\<close> (none when \<open>n\<close> is not positive). \<open>EvGetData off idx\<close> is
  \<open>host_rx_pkt_get_data(&buffer[off], idx)\<close>.\<close>

datatype event =
    EvOpen string int
  | EvIoctl int string int
  | EvClose int
  | EvFcntlGet int
  | EvFcntlSet int int
  | EvDelay int
  | EvSelect int
  | EvRead int nat
  | EvWrite int int "byte list"
  | EvPush byte
  | EvTransferInit
  | EvPktValid
  | EvPktPull
  | EvGetData nat "16 word"
  | EvLog msg
  | EvPerror string
  | EvExit int

datatype outcome = Returned int | Exited int | Running

text \<open>Answers of the outside world: to the start-up calls, and to the calls of one pass of
  the loop. \<open>read_in\<close> is \<open>None\<close> when \<open>read\<close> fails and the frame waiting on the device
  otherwise; \<open>pkt_data_in\<close> is what \<open>host_rx_pkt_get_data\<close> stores for an index.\<close>

record startup =
  open_ret :: int
  ioctl_ret :: int
  ioctl_errno :: int
  getfl_ret :: int

record pass_in =
  select_ret :: int
  select_errno :: int
  fd_isset :: bool
  read_in :: "byte list option"
  npkt_in :: int
  pkt_len_in :: int
  pkt_data_in :: "16 word \<Rightarrow> byte"
  write_ret :: int

subsection \<open>The helpers\<close>

text \<open>\<open>read(fd, buf, n)\<close>: \<open>-1\<close> on failure, otherwise at most \<open>n\<close> bytes of the waiting
  frame are stored at the start of \<open>buf\<close> and their number is returned.\<close>

definition sys_read :: "memory \<Rightarrow> nat \<Rightarrow> byte list option \<Rightarrow> int \<times> memory" where
  "sys_read buf n r =
     (case r of
        None \<Rightarrow> (- 1, buf)
      | Some d \<Rightarrow>
          (int (length (take n d)),
           (\<lambda>k. if k < length (take n d) then take n d ! k else buf k)))"

definition fd_read :: "int \<Rightarrow> memory \<Rightarrow> nat \<Rightarrow> byte list option
    \<Rightarrow> event list \<times> (outcome + int \<times> memory)" where
  "fd_read fd buf n r =
     (case sys_read buf n r of
        (nread, buf') \<Rightarrow>
          if nread < 0 then ([EvRead fd n, EvPerror ''Reading data'', EvExit 1], Inl (Exited 1))
          else ([EvRead fd n], Inr (nread, buf')))"

text \<open>\<open>fd_write\<close> calls \<open>write(fd, buf, n)\<close> whatever \<open>n\<close> is, and ends the process when
  the call returns a negative value.\<close>

definition fd_write :: "int \<Rightarrow> memory \<Rightarrow> int \<Rightarrow> int \<Rightarrow> event list \<times> (outcome + int)" where
  "fd_write fd buf n nwrite =
     (if nwrite < 0
        then ([EvWrite fd n (map buf [0..<nat n]), EvPerror ''Writing data'', EvExit 1],
              Inl (Exited 1))
      else ([EvWrite fd n (map buf [0..<nat n])], Inr nwrite))"

function print_bytes_loop :: "memory \<Rightarrow> nat \<Rightarrow> nat \<Rightarrow> event list" where
  "print_bytes_loop data len i =
     (if i < len then
        (if 0 < i \<and> i mod 16 = 0 then [EvLog Newline] else [])
        @ [EvLog (Hex (data i))]
        @ print_bytes_loop data len (i + 1)
      else [])"
  by pat_completeness auto
termination
  by (relation "measure (\<lambda>(data, len, i). len - i)") auto

definition print_bytes :: "memory \<Rightarrow> nat \<Rightarrow> event list" where
  "print_bytes data len = print_bytes_loop data len 0 @ [EvLog Newline]"

subsection \<open>The two copy loops of the main loop\<close>

text \<open>\<open>for (int i = 0; i < nbytes; i++) host_tx_data_push(buffer[i]);\<close>\<close>

function tx_loop :: "memory \<Rightarrow> int \<Rightarrow> int \<Rightarrow> event list" where
  "tx_loop buf nbytes i =
     (if i < nbytes then EvPush (buf (nat i)) # tx_loop buf nbytes (i + 1) else [])"
  by pat_completeness auto
termination
  by (relation "measure (\<lambda>(buf, nbytes, i). nat (nbytes - i))") auto

text \<open>\<open>for (int i = 0; i < pkt_len; i++) host_rx_pkt_get_data(&buffer[i], i);\<close>
  The index parameter is a \<open>uint16_t\<close>, so the counter is passed modulo \<open>65536\<close>. The loop
  has no bound but \<open>pkt_len\<close>.\<close>

function rx_loop :: "memory \<Rightarrow> (16 word \<Rightarrow> byte) \<Rightarrow> int \<Rightarrow> int \<Rightarrow> event list \<times> memory" where
  "rx_loop buf gd pkt_len i =
     (if i < pkt_len then
        (case rx_loop (buf(nat i := gd (word_of_int i))) gd pkt_len (i + 1) of
           (evs, buf') \<Rightarrow> (EvGetData (nat i) (word_of_int i) # evs, buf'))
      else ([], buf))"
  by pat_completeness auto
termination
  by (relation "measure (\<lambda>(buf, gd, pkt_len, i). nat (pkt_len - i))") auto

subsection \<open>One pass of the main loop\<close>

text \<open>Lines 136 to 151: the host side.\<close>

definition outbound :: "int \<Rightarrow> memory \<Rightarrow> pass_in \<Rightarrow> event list \<times> (outcome + memory)" where
  "outbound tap_fd buf p =
     (if fd_isset p then
        (case fd_read tap_fd buf MTU_SIZE (read_in p) of
           (evs, Inl oc) \<Rightarrow> (evs, Inl oc)
         | (evs, Inr (nbytes, buf')) \<Rightarrow>
             if nbytes \<noteq> 0 then
               (evs @ [EvLog (TapRd nbytes)] @ print_bytes buf' (nat nbytes)
                  @ tx_loop buf' nbytes 0 @ [EvTransferInit], Inr buf')
             else (evs @ [EvLog (BadPacket nbytes)], Inr buf'))
      else ([], Inr buf))"

text \<open>Lines 153 to 168: the peer side.\<close>

definition inbound :: "int \<Rightarrow> memory \<Rightarrow> pass_in \<Rightarrow> event list \<times> (outcome + memory)" where
  "inbound tap_fd buf p =
     (if 0 < npkt_in p then
        (case rx_loop buf (pkt_data_in p) (pkt_len_in p) 0 of
           (evs, buf') \<Rightarrow>
             (case fd_write tap_fd buf' (pkt_len_in p) (write_ret p) of
                (wevs, Inl oc) \<Rightarrow>
                  ([EvPktValid, EvPktPull, EvLog (SendPacket (pkt_len_in p))] @ evs @ wevs, Inl oc)
              | (wevs, Inr nwrite) \<Rightarrow>
                  ([EvPktValid, EvPktPull, EvLog (SendPacket (pkt_len_in p))] @ evs @ wevs,
                   Inr buf')))
      else ([EvPktValid], Inr buf))"

text \<open>Lines 107 to 169. \<open>Inr\<close> is the end of the pass (by \<open>continue\<close> or by reaching the
  closing brace): the loop goes on with that memory.\<close>

definition loop_body :: "int \<Rightarrow> memory \<Rightarrow> pass_in \<Rightarrow> event list \<times> (outcome + memory)" where
  "loop_body tap_fd buf p =
     (if select_ret p < 0 then
        (if select_errno p = EINTR then ([EvDelay 1000, EvSelect (tap_fd + 1)], Inr buf)
         else if select_errno p = EAGAIN then ([EvDelay 1000, EvSelect (tap_fd + 1)], Inr buf)
         else ([EvDelay 1000, EvSelect (tap_fd + 1),
                EvLog (SelectFailed tap_fd (select_errno p)), EvClose tap_fd],
               Inl (Returned (- 5))))
      else
        (case outbound tap_fd buf p of
           (oevs, Inl oc) \<Rightarrow> ([EvDelay 1000, EvSelect (tap_fd + 1)] @ oevs, Inl oc)
         | (oevs, Inr buf') \<Rightarrow>
             (case inbound tap_fd buf' p of
                (ievs, r) \<Rightarrow> ([EvDelay 1000, EvSelect (tap_fd + 1)] @ oevs @ ievs, r))))"

subsection \<open>The main loop and the function\<close>

fun main_loop :: "int \<Rightarrow> memory \<Rightarrow> pass_in list \<Rightarrow> event list \<times> outcome" where
  "main_loop tap_fd buf [] = ([], Running)"
| "main_loop tap_fd buf (p # ps) =
     (case loop_body tap_fd buf p of
        (evs, Inl oc) \<Rightarrow> (evs, oc)
      | (evs, Inr buf') \<Rightarrow>
          (case main_loop tap_fd buf' ps of (evs', oc) \<Rightarrow> (evs @ evs', oc)))"

definition tap_name :: string where
  "tap_name = ''tap0''"

text \<open>\<open>uint8_t buffer[MTU_SIZE]\<close> is a global, so the array starts as zeros. The same value
  stands for the bytes after the array; no call of the program depends on them
  (\<open>main_loop_any_memory\<close> below).\<close>

definition buffer :: memory where
  "buffer = (\<lambda>k. 0)"

text \<open>Lines 75 to 177. The statements after the loop (lines 173 to 176) cannot be reached:
  the loop is \<open>while (1)\<close> and contains no \<open>break\<close>.\<close>

definition eth_dpi_main :: "int \<Rightarrow> string list \<Rightarrow> startup \<Rightarrow> pass_in list
    \<Rightarrow> event list \<times> outcome" where
  "eth_dpi_main argc argv s ps =
     (let tap_fd = open_ret s in
      if tap_fd < 0 then
        ([EvOpen ''/dev/net/tun'' O_RDWR, EvLog (OpenFailed tap_fd)], Returned (- 1))
      else if ioctl_ret s < 0 then
        ([EvOpen ''/dev/net/tun'' O_RDWR,
          EvIoctl tap_fd (take IFNAMSIZ tap_name) (IFF_TAP OR IFF_NO_PI),
          EvLog (SetNameFailed tap_fd (ioctl_errno s)), EvClose tap_fd], Returned (- 2))
      else
        (case main_loop tap_fd buffer ps of
           (evs, oc) \<Rightarrow>
             ([EvOpen ''/dev/net/tun'' O_RDWR,
               EvIoctl tap_fd (take IFNAMSIZ tap_name) (IFF_TAP OR IFF_NO_PI),
               EvLog (TapReady (take IFNAMSIZ tap_name)),
               EvFcntlGet tap_fd, EvFcntlSet tap_fd (getfl_ret s OR O_NONBLOCK)] @ evs, oc)))"

subsection \<open>Reading a trace\<close>

text \<open>The calls of the outbound hand-over (\<open>host_tx_data_push\<close>, \<open>host_tx_transfer_init\<close>),
  the \<open>close\<close> calls, the interface names given to \<open>ioctl\<close>, the indices asked of
  \<open>host_rx_pkt_get_data\<close> (as numbers), and the offsets of its stores that lie outside the
  array.\<close>

fun is_tx :: "event \<Rightarrow> bool" where
  "is_tx (EvPush b) = True"
| "is_tx EvTransferInit = True"
| "is_tx _ = False"

fun is_close :: "event \<Rightarrow> bool" where
  "is_close (EvClose fd) = True"
| "is_close _ = False"

fun ioctl_names :: "event list \<Rightarrow> string list" where
  "ioctl_names [] = []"
| "ioctl_names (EvIoctl fd name flags # es) = name # ioctl_names es"
| "ioctl_names (e # es) = ioctl_names es"


fun stores_outside :: "event list \<Rightarrow> nat list" where
  "stores_outside [] = []"
| "stores_outside (EvGetData off idx # es) =
     (if off < MTU_SIZE then stores_outside es else off # stores_outside es)"
| "stores_outside (e # es) = stores_outside es"

text \<open>The call of \<open>host_rx_pkt_get_data\<close> that the copy loop makes when its counter is
  \<open>k\<close>.\<close>

definition rx_call :: "nat \<Rightarrow> event" where
  "rx_call k = EvGetData k (word_of_nat k)"

text \<open>The calls that end a run (\<open>close\<close> and \<open>exit\<close>), a trace that has one of them as
  its last call and nowhere else, and the traces that fit an outcome: a return from the loop
  is \<open>-5\<close> after a \<open>close\<close> of the descriptor, an exit is \<open>exit(1)\<close>, and a run that
  is still going has made neither call.\<close>

fun is_final :: "event \<Rightarrow> bool" where
  "is_final (EvClose fd) = True"
| "is_final (EvExit c) = True"
| "is_final _ = False"

definition ends_with :: "event \<Rightarrow> event list \<Rightarrow> bool" where
  "ends_with e evs = (evs \<noteq> [] \<and> last evs = e \<and> filter is_final (butlast evs) = [])"

fun well_ended :: "int \<Rightarrow> event list \<Rightarrow> outcome \<Rightarrow> bool" where
  "well_ended fd evs (Returned c) = (c = - 5 \<and> ends_with (EvClose fd) evs)"
| "well_ended fd evs (Exited c) = (c = 1 \<and> ends_with (EvExit 1) evs)"
| "well_ended fd evs Running = (filter is_final evs = [])"

text \<open>A poll failure that the loop does not retry.\<close>

definition poll_failed :: "pass_in \<Rightarrow> bool" where
  "poll_failed p = (select_ret p < 0 \<and> select_errno p \<noteq> EINTR \<and> select_errno p \<noteq> EAGAIN)"

section \<open>The copy loops\<close>

declare tx_loop.simps [simp del] rx_loop.simps [simp del] print_bytes_loop.simps [simp del]

lemma upt_nat_step:
  "0 \<le> i \<Longrightarrow> nat i < n \<Longrightarrow> [nat i..<n] = nat i # [nat (i + 1)..<n]"
  by (simp add: upt_conv_Cons nat_add_distrib)

lemma tx_loop_eq:
  "0 \<le> i \<Longrightarrow> tx_loop buf n i = map (\<lambda>k. EvPush (buf k)) [nat i..<nat n]"
proof (induction buf n i rule: tx_loop.induct)
  case (1 buf nbytes i)
  show ?case
  proof (cases "i < nbytes")
    case True
    with "1.prems" have up: "[nat i..<nat nbytes] = nat i # [nat (i + 1)..<nat nbytes]"
      by (intro upt_nat_step) simp_all
    from True "1.prems" have "tx_loop buf nbytes (i + 1)
        = map (\<lambda>k. EvPush (buf k)) [nat (i + 1)..<nat nbytes]"
      by (intro "1.IH") simp_all
    with True up show ?thesis
      by (subst tx_loop.simps) simp
  next
    case False
    then show ?thesis
      by (subst tx_loop.simps) simp
  qed
qed

text \<open>The copy loop, whatever the pulled length: the counter runs from \<open>i\<close> to \<open>L - 1\<close>,
  each call stores at the offset of its counter, and at the end these offsets hold what the
  peer gave for the index passed.\<close>

lemma rx_loop_eq:
  "0 \<le> i \<Longrightarrow>
   rx_loop buf gd L i
     = (map rx_call [nat i..<nat L],
        (\<lambda>k. if nat i \<le> k \<and> k < nat L then gd (word_of_nat k) else buf k))"
proof (induction buf gd L i rule: rx_loop.induct)
  case (1 buf gd pkt_len i)
  show ?case
  proof (cases "i < pkt_len")
    case True
    with "1.prems" have up: "[nat i..<nat pkt_len] = nat i # [nat (i + 1)..<nat pkt_len]"
      by (intro upt_nat_step) simp_all
    let ?b = "buf(nat i := gd (word_of_int i))"
    from True "1.prems" have ih: "rx_loop ?b gd pkt_len (i + 1)
        = (map rx_call [nat (i + 1)..<nat pkt_len],
           (\<lambda>k. if nat (i + 1) \<le> k \<and> k < nat pkt_len then gd (word_of_nat k) else ?b k))"
      by (intro "1.IH") simp_all
    from "1.prems" have w: "(word_of_nat (nat i) :: 16 word) = word_of_int i"
      by simp
    have m: "(\<lambda>k. if nat (i + 1) \<le> k \<and> k < nat pkt_len then gd (word_of_nat k) else ?b k)
        = (\<lambda>k. if nat i \<le> k \<and> k < nat pkt_len then gd (word_of_nat k) else buf k)"
    proof
      fix k
      show "(if nat (i + 1) \<le> k \<and> k < nat pkt_len then gd (word_of_nat k) else ?b k)
          = (if nat i \<le> k \<and> k < nat pkt_len then gd (word_of_nat k) else buf k)"
      proof (cases "k = nat i")
        case True
        with \<open>i < pkt_len\<close> "1.prems" w show ?thesis
          by (simp add: nat_add_distrib)
      next
        case False
        with "1.prems" show ?thesis
          by (auto simp: nat_add_distrib)
      qed
    qed
    from True ih up w show ?thesis
      by (subst rx_loop.simps) (simp add: m rx_call_def)
  next
    case False
    with "1.prems" have "nat pkt_len \<le> nat i"
      by simp
    then have "(\<lambda>k. if nat i \<le> k \<and> k < nat pkt_len then gd (word_of_nat k) else buf k) = buf"
      by (intro ext) (simp, linarith)
    with False \<open>nat pkt_len \<le> nat i\<close> show ?thesis
      by (subst rx_loop.simps) simp
  qed
qed

text \<open>What kind of call each loop makes.\<close>

lemma print_bytes_loop_events: "set (print_bytes_loop data len i) \<subseteq> range EvLog"
proof (induction data len i rule: print_bytes_loop.induct)
  case (1 data len i)
  show ?case
  proof (cases "i < len")
    case True
    with "1.IH" show ?thesis
      by (subst print_bytes_loop.simps) auto
  next
    case False
    then show ?thesis
      by (subst print_bytes_loop.simps) simp
  qed
qed

lemma print_bytes_events: "set (print_bytes data len) \<subseteq> range EvLog"
  using print_bytes_loop_events [of data len 0] by (auto simp: print_bytes_def)

lemma tx_loop_events: "set (tx_loop buf n i) \<subseteq> range EvPush"
proof (induction buf n i rule: tx_loop.induct)
  case (1 buf nbytes i)
  show ?case
  proof (cases "i < nbytes")
    case True
    with "1.IH" show ?thesis
      by (subst tx_loop.simps) auto
  next
    case False
    then show ?thesis
      by (subst tx_loop.simps) simp
  qed
qed

lemma rx_call_events: "set (map rx_call ks) \<subseteq> range (\<lambda>(off, idx). EvGetData off idx)"
  by (auto simp: rx_call_def image_iff)

section \<open>The two halves of a pass\<close>

lemma filter_none:
  "set xs \<subseteq> A \<Longrightarrow> (\<And>x. x \<in> A \<Longrightarrow> \<not> P x) \<Longrightarrow> filter P xs = []"
  by (auto simp: filter_empty_conv)

lemma outbound_idle: "\<not> fd_isset p \<Longrightarrow> outbound tap_fd buf p = ([], Inr buf)"
  by (simp add: outbound_def)

lemma outbound_fail:
  "fd_isset p \<Longrightarrow> read_in p = None \<Longrightarrow>
   outbound tap_fd buf p
     = ([EvRead tap_fd MTU_SIZE, EvPerror ''Reading data'', EvExit 1], Inl (Exited 1))"
  by (simp add: outbound_def fd_read_def sys_read_def)

lemma outbound_empty:
  "fd_isset p \<Longrightarrow> read_in p = Some [] \<Longrightarrow>
   outbound tap_fd buf p = ([EvRead tap_fd MTU_SIZE, EvLog (BadPacket 0)], Inr buf)"
  by (simp add: outbound_def fd_read_def sys_read_def)

lemma outbound_frame:
  assumes "fd_isset p" and "read_in p = Some d" and "d \<noteq> []"
  shows "outbound tap_fd buf p
     = ([EvRead tap_fd MTU_SIZE, EvLog (TapRd (int (length (take MTU_SIZE d))))]
          @ print_bytes (\<lambda>k. if k < length (take MTU_SIZE d) then take MTU_SIZE d ! k else buf k)
              (length (take MTU_SIZE d))
          @ map EvPush (take MTU_SIZE d) @ [EvTransferInit],
        Inr (\<lambda>k. if k < length (take MTU_SIZE d) then take MTU_SIZE d ! k else buf k))"
proof -
  let ?f = "take MTU_SIZE d"
  let ?b = "\<lambda>k. if k < length ?f then ?f ! k else buf k"
  from assms(3) have ne: "int (length ?f) \<noteq> 0"
    by (simp add: MTU_SIZE_def)
  have "tx_loop ?b (int (length ?f)) 0 = map (\<lambda>k. EvPush (?b k)) [0..<length ?f]"
    by (simp add: tx_loop_eq del: length_take)
  also have "\<dots> = map (\<lambda>k. EvPush (?f ! k)) [0..<length ?f]"
    by (rule map_cong) simp_all
  also have "\<dots> = map EvPush (map ((!) ?f) [0..<length ?f])"
    by simp
  also have "\<dots> = map EvPush ?f"
    by (simp only: map_nth)
  finally have tx: "tx_loop ?b (int (length ?f)) 0 = map EvPush ?f" .
  from assms(1,2) ne show ?thesis
    by (simp add: outbound_def fd_read_def sys_read_def tx del: length_take)
qed

lemma outbound_tx:
  "filter is_tx (fst (outbound tap_fd buf p))
     = (case read_in p of
          None \<Rightarrow> []
        | Some d \<Rightarrow> if fd_isset p \<and> d \<noteq> [] then map EvPush (take MTU_SIZE d) @ [EvTransferInit]
                   else [])"
proof (cases "fd_isset p")
  case False
  then show ?thesis
    by (simp add: outbound_idle split: option.splits)
next
  case True
  show ?thesis
  proof (cases "read_in p")
    case None
    with True show ?thesis
      by (simp add: outbound_fail)
  next
    case (Some d)
    show ?thesis
    proof (cases "d = []")
      case True
      with \<open>fd_isset p\<close> Some show ?thesis
        by (simp add: outbound_empty)
    next
      case False
      have pb: "filter is_tx (print_bytes b n) = []" for b n
        by (rule filter_none [OF print_bytes_events]) auto
      have id: "filter is_tx (map EvPush xs) = map EvPush xs" for xs
        by (induction xs) simp_all
      from \<open>fd_isset p\<close> Some False show ?thesis
        by (simp add: outbound_frame pb id)
    qed
  qed
qed

text \<open>The inbound half, whatever the pulled length.\<close>

lemma inbound_idle: "\<not> 0 < npkt_in p \<Longrightarrow> inbound tap_fd buf p = ([EvPktValid], Inr buf)"
  by (simp add: inbound_def)

lemma inbound_frame:
  assumes "0 < npkt_in p"
  shows "inbound tap_fd buf p
     = ([EvPktValid, EvPktPull, EvLog (SendPacket (pkt_len_in p))]
          @ map rx_call [0..<nat (pkt_len_in p)]
          @ [EvWrite tap_fd (pkt_len_in p)
               (map (\<lambda>k. pkt_data_in p (word_of_nat k)) [0..<nat (pkt_len_in p)])]
          @ (if write_ret p < 0 then [EvPerror ''Writing data'', EvExit 1] else []),
        if write_ret p < 0 then Inl (Exited 1)
        else Inr (\<lambda>k. if k < nat (pkt_len_in p) then pkt_data_in p (word_of_nat k) else buf k))"
proof -
  let ?L = "pkt_len_in p"
  let ?b = "\<lambda>k. if k < nat ?L then pkt_data_in p (word_of_nat k) else buf k"
  have rx: "rx_loop buf (pkt_data_in p) ?L 0 = (map rx_call [0..<nat ?L], ?b)"
    using rx_loop_eq [of 0 buf "pkt_data_in p" ?L] by simp
  have "map ?b [0..<nat ?L] = map (\<lambda>k. pkt_data_in p (word_of_nat k)) [0..<nat ?L]"
    by (rule map_cong) simp_all
  then have wr: "fd_write tap_fd ?b ?L (write_ret p)
      = (if write_ret p < 0
         then ([EvWrite tap_fd ?L (map (\<lambda>k. pkt_data_in p (word_of_nat k)) [0..<nat ?L]),
                EvPerror ''Writing data'', EvExit 1], Inl (Exited 1))
         else ([EvWrite tap_fd ?L (map (\<lambda>k. pkt_data_in p (word_of_nat k)) [0..<nat ?L])],
               Inr (write_ret p)))"
    by (simp only: fd_write_def)
  from assms show ?thesis
    by (simp add: inbound_def rx wr)
qed

lemma inbound_tx: "filter is_tx (fst (inbound tap_fd buf p)) = []"
proof (cases "0 < npkt_in p")
  case False
  then show ?thesis
    by (simp add: inbound_idle)
next
  case True
  have rx: "filter is_tx (map rx_call ks) = []" for ks
    by (rule filter_none [OF rx_call_events]) auto
  from True show ?thesis
    by (simp add: inbound_frame rx)
qed

section \<open>A pass of the main loop\<close>

lemma loop_body_retry:
  "select_ret p < 0 \<Longrightarrow> select_errno p = EINTR \<or> select_errno p = EAGAIN \<Longrightarrow>
   loop_body tap_fd buf p = ([EvDelay 1000, EvSelect (tap_fd + 1)], Inr buf)"
  by (auto simp: loop_body_def)

lemma loop_body_poll_failed:
  "poll_failed p \<Longrightarrow>
   loop_body tap_fd buf p
     = ([EvDelay 1000, EvSelect (tap_fd + 1),
         EvLog (SelectFailed tap_fd (select_errno p)), EvClose tap_fd], Inl (Returned (- 5)))"
  by (simp add: loop_body_def poll_failed_def)

lemma loop_body_polled:
  "0 \<le> select_ret p \<Longrightarrow>
   loop_body tap_fd buf p
     = (case outbound tap_fd buf p of
          (oevs, Inl oc) \<Rightarrow> ([EvDelay 1000, EvSelect (tap_fd + 1)] @ oevs, Inl oc)
        | (oevs, Inr buf') \<Rightarrow>
            ([EvDelay 1000, EvSelect (tap_fd + 1)] @ oevs @ fst (inbound tap_fd buf' p),
             snd (inbound tap_fd buf' p)))"
  by (simp add: loop_body_def split: prod.splits sum.splits)

lemma loop_body_start:
  "\<exists>rest. fst (loop_body tap_fd buf p) = EvDelay 1000 # EvSelect (tap_fd + 1) # rest"
  by (simp add: loop_body_def split: prod.splits sum.splits)

lemma main_loop_step:
  "main_loop tap_fd buf (p # ps)
     = (case snd (loop_body tap_fd buf p) of
          Inl oc \<Rightarrow> (fst (loop_body tap_fd buf p), oc)
        | Inr buf' \<Rightarrow>
            (fst (loop_body tap_fd buf p) @ fst (main_loop tap_fd buf' ps),
             snd (main_loop tap_fd buf' ps)))"
  by (simp split: prod.splits sum.splits)

text \<open>Neither the calls of a pass nor the way it ends depend on what the memory holds when
  the pass starts: every byte the pass hands to a call was stored in that same pass.\<close>

lemma print_bytes_loop_cong:
  "(\<And>k. k < len \<Longrightarrow> data k = data' k) \<Longrightarrow>
   print_bytes_loop data len i = print_bytes_loop data' len i"
proof (induction data len i rule: print_bytes_loop.induct)
  case (1 data len i)
  show ?case
  proof (cases "i < len")
    case True
    have ih: "print_bytes_loop data len (i + 1) = print_bytes_loop data' len (i + 1)"
      by (rule "1.IH" [OF True "1.prems"])
    from True "1.prems" [of i] ih show ?thesis
      by (simp add: print_bytes_loop.simps [of data len i] print_bytes_loop.simps [of data' len i])
  next
    case False
    then show ?thesis
      by (simp add: print_bytes_loop.simps [of data len i] print_bytes_loop.simps [of data' len i])
  qed
qed

lemma loop_body_halves:
  "0 \<le> select_ret p \<Longrightarrow>
   loop_body tap_fd buf p
     = (case snd (outbound tap_fd buf p) of
          Inl oc \<Rightarrow> ([EvDelay 1000, EvSelect (tap_fd + 1)] @ fst (outbound tap_fd buf p), Inl oc)
        | Inr buf' \<Rightarrow>
            ([EvDelay 1000, EvSelect (tap_fd + 1)] @ fst (outbound tap_fd buf p)
               @ fst (inbound tap_fd buf' p),
             snd (inbound tap_fd buf' p)))"
  by (simp add: loop_body_polled split: prod.splits sum.splits)

lemma outbound_any_memory:
  "fst (outbound tap_fd buf p) = fst (outbound tap_fd buf' p)
   \<and> (case snd (outbound tap_fd buf p) of
         Inl oc \<Rightarrow> snd (outbound tap_fd buf' p) = Inl oc
       | Inr b \<Rightarrow> \<exists>b'. snd (outbound tap_fd buf' p) = Inr b')"
proof (cases "fd_isset p")
  case False
  then show ?thesis
    by (simp add: outbound_idle)
next
  case True
  show ?thesis
  proof (cases "read_in p")
    case None
    with True show ?thesis
      by (simp add: outbound_fail)
  next
    case (Some d)
    show ?thesis
    proof (cases "d = []")
      case True
      with \<open>fd_isset p\<close> Some show ?thesis
        by (simp add: outbound_empty)
    next
      case False
      let ?f = "take MTU_SIZE d"
      have "print_bytes_loop (\<lambda>k. if k < length ?f then ?f ! k else buf k) (length ?f) 0
          = print_bytes_loop (\<lambda>k. if k < length ?f then ?f ! k else buf' k) (length ?f) 0"
        by (rule print_bytes_loop_cong) simp
      with \<open>fd_isset p\<close> Some False show ?thesis
        by (simp add: outbound_frame print_bytes_def del: length_take)
    qed
  qed
qed

lemma inbound_any_memory:
  "fst (inbound tap_fd buf p) = fst (inbound tap_fd buf' p)
   \<and> (case snd (inbound tap_fd buf p) of
         Inl oc \<Rightarrow> snd (inbound tap_fd buf' p) = Inl oc
       | Inr b \<Rightarrow> \<exists>b'. snd (inbound tap_fd buf' p) = Inr b')"
proof (cases "0 < npkt_in p")
  case False
  then show ?thesis
    by (simp add: inbound_idle)
next
  case True
  then show ?thesis
    by (simp add: inbound_frame)
qed

lemma loop_body_any_memory:
  "fst (loop_body tap_fd buf p) = fst (loop_body tap_fd buf' p)
   \<and> (case snd (loop_body tap_fd buf p) of
         Inl oc \<Rightarrow> snd (loop_body tap_fd buf' p) = Inl oc
       | Inr b \<Rightarrow> \<exists>b'. snd (loop_body tap_fd buf' p) = Inr b')"
proof (cases "select_ret p < 0")
  case True
  then show ?thesis
    by (simp add: loop_body_def)
next
  case False
  then have sel: "0 \<le> select_ret p"
    by simp
  note oa = outbound_any_memory [of tap_fd buf p buf']
  show ?thesis
  proof (cases "snd (outbound tap_fd buf p)")
    case (Inl oc)
    with oa have "snd (outbound tap_fd buf' p) = Inl oc"
      by simp
    with Inl oa show ?thesis
      by (simp add: loop_body_halves [OF sel])
  next
    case (Inr b)
    with oa obtain b' where b': "snd (outbound tap_fd buf' p) = Inr b'"
      by auto
    from Inr b' oa inbound_any_memory [of tap_fd b p b'] show ?thesis
      by (auto simp: loop_body_halves [OF sel] split: sum.splits)
  qed
qed

lemma main_loop_any_memory: "main_loop tap_fd buf ps = main_loop tap_fd buf' ps"
proof (induction ps arbitrary: buf buf')
  case Nil
  show ?case by simp
next
  case (Cons p ps)
  note lb = loop_body_any_memory [of tap_fd buf p buf']
  show ?case
  proof (cases "snd (loop_body tap_fd buf p)")
    case (Inl oc)
    with lb have "snd (loop_body tap_fd buf' p) = Inl oc"
      by simp
    with Inl lb show ?thesis
      by (simp add: main_loop_step del: main_loop.simps)
  next
    case (Inr b)
    with lb obtain b' where b': "snd (loop_body tap_fd buf' p) = Inr b'"
      by auto
    from Inr b' lb Cons.IH [of b b'] show ?thesis
      by (simp add: main_loop_step del: main_loop.simps)
  qed
qed

section \<open>How a run ends\<close>

lemma ends_with_prepend:
  "filter is_final pre = [] \<Longrightarrow> ends_with e evs \<Longrightarrow> ends_with e (pre @ evs)"
  by (auto simp: ends_with_def butlast_append)

lemma well_ended_prepend:
  "filter is_final pre = [] \<Longrightarrow> well_ended fd evs oc \<Longrightarrow> well_ended fd (pre @ evs) oc"
  by (cases oc) (simp_all add: ends_with_prepend)

lemma no_final_no_close: "filter is_final evs = [] \<Longrightarrow> filter is_close evs = []"
proof -
  assume a: "filter is_final evs = []"
  have "\<not> is_close x" if "x \<in> set evs" for x
  proof
    assume "is_close x"
    then have "is_final x"
      by (cases x) simp_all
    with that a show False
      by (simp add: filter_empty_conv)
  qed
  then show ?thesis
    by (simp add: filter_empty_conv)
qed

lemma no_final_last: "filter is_final evs = [] \<Longrightarrow> evs \<noteq> [] \<Longrightarrow> \<not> is_final (last evs)"
  by (simp add: filter_empty_conv)

lemma ends_with_close:
  "ends_with (EvClose fd) evs \<Longrightarrow>
   filter is_close evs = [EvClose fd] \<and> evs \<noteq> [] \<and> last evs = EvClose fd"
proof -
  assume a: "ends_with (EvClose fd) evs"
  then have ne: "evs \<noteq> []" and la: "last evs = EvClose fd"
    and fr: "filter is_final (butlast evs) = []"
    by (simp_all add: ends_with_def)
  from ne la have sp: "evs = butlast evs @ [EvClose fd]"
    by (metis append_butlast_last_id)
  from fr have "filter is_close (butlast evs) = []"
    by (rule no_final_no_close)
  then have "filter is_close (butlast evs @ [EvClose fd]) = [EvClose fd]"
    by simp
  with sp ne la show ?thesis
    by simp
qed

lemma ends_with_exit:
  "ends_with (EvExit c) evs \<Longrightarrow> filter is_close evs = [] \<and> evs \<noteq> [] \<and> last evs = EvExit c"
proof -
  assume a: "ends_with (EvExit c) evs"
  then have ne: "evs \<noteq> []" and la: "last evs = EvExit c"
    and fr: "filter is_final (butlast evs) = []"
    by (simp_all add: ends_with_def)
  from ne la have sp: "evs = butlast evs @ [EvExit c]"
    by (metis append_butlast_last_id)
  from fr have "filter is_close (butlast evs) = []"
    by (rule no_final_no_close)
  then have "filter is_close (butlast evs @ [EvExit c]) = []"
    by simp
  with sp ne la show ?thesis
    by simp
qed

lemma outbound_ended:
  "outbound tap_fd buf p = (evs, r) \<Longrightarrow>
   (case r of Inl oc \<Rightarrow> oc = Exited 1 \<and> ends_with (EvExit 1) evs
            | Inr b \<Rightarrow> filter is_final evs = [])"
proof -
  have pb: "filter is_final (print_bytes b n) = []" for b n
    by (rule filter_none [OF print_bytes_events]) auto
  have tx: "filter is_final (tx_loop b n i) = []" for b n i
    by (rule filter_none [OF tx_loop_events]) auto
  show "outbound tap_fd buf p = (evs, r) \<Longrightarrow> ?thesis"
    by (auto simp: outbound_def fd_read_def sys_read_def pb tx ends_with_def
        split: option.splits if_splits)
qed

lemma inbound_ended:
  "inbound tap_fd buf p = (evs, r) \<Longrightarrow>
   (case r of Inl oc \<Rightarrow> oc = Exited 1 \<and> ends_with (EvExit 1) evs
            | Inr b \<Rightarrow> filter is_final evs = [])"
proof (cases "0 < npkt_in p")
  case False
  assume "inbound tap_fd buf p = (evs, r)"
  with False show ?thesis
    by (auto simp: inbound_idle)
next
  case True
  have rx: "filter is_final (map rx_call ks) = []" for ks
    by (rule filter_none [OF rx_call_events]) auto
  assume "inbound tap_fd buf p = (evs, r)"
  with True show ?thesis
    by (auto simp: inbound_frame rx ends_with_def butlast_append split: if_splits)
qed

lemma loop_body_ended:
  "loop_body tap_fd buf p = (evs, r) \<Longrightarrow>
   (case r of Inl oc \<Rightarrow> well_ended tap_fd evs oc \<and> oc \<noteq> Running
                      \<and> (oc \<in> range Returned) = poll_failed p
            | Inr b \<Rightarrow> filter is_final evs = [] \<and> \<not> poll_failed p)"
proof (cases "select_ret p < 0")
  case True
  assume "loop_body tap_fd buf p = (evs, r)"
  with True show ?thesis
    by (auto simp: loop_body_def poll_failed_def ends_with_def split: if_splits)
next
  case False
  assume lb: "loop_body tap_fd buf p = (evs, r)"
  from False have npf: "\<not> poll_failed p"
    by (simp add: poll_failed_def)
  obtain oevs ro where ob: "outbound tap_fd buf p = (oevs, ro)"
    by (cases "outbound tap_fd buf p")
  note oe = outbound_ended [OF ob]
  have pre: "filter is_final [EvDelay 1000, EvSelect (tap_fd + 1)] = []"
    by simp
  show ?thesis
  proof (cases ro)
    case (Inl oc)
    with False lb ob have "evs = [EvDelay 1000, EvSelect (tap_fd + 1)] @ oevs" and "r = Inl oc"
      by (simp_all add: loop_body_polled)
    moreover from oe Inl have "oc = Exited 1" and "ends_with (EvExit 1) oevs"
      by simp_all
    ultimately show ?thesis
      using npf ends_with_prepend [OF pre, of "EvExit 1" oevs] by auto
  next
    case (Inr b)
    obtain ievs ri where ib: "inbound tap_fd b p = (ievs, ri)"
      by (cases "inbound tap_fd b p")
    note ie = inbound_ended [OF ib]
    from False lb ob Inr ib
    have evs: "evs = ([EvDelay 1000, EvSelect (tap_fd + 1)] @ oevs) @ ievs" and r: "r = ri"
      by (simp_all add: loop_body_polled)
    from oe Inr have of_: "filter is_final ([EvDelay 1000, EvSelect (tap_fd + 1)] @ oevs) = []"
      by simp
    show ?thesis
    proof (cases ri)
      case (Inl oc)
      with ie have "oc = Exited 1" and "ends_with (EvExit 1) ievs"
        by simp_all
      then have "well_ended tap_fd ievs oc \<and> oc \<noteq> Running \<and> oc \<notin> range Returned"
        by auto
      with well_ended_prepend [OF of_, of tap_fd ievs oc] evs r Inl npf show ?thesis
        by simp
    next
      case (Inr b')
      with ie of_ evs r npf show ?thesis
        by simp
    qed
  qed
qed

lemma main_loop_ended:
  "well_ended tap_fd (fst (main_loop tap_fd buf ps)) (snd (main_loop tap_fd buf ps))"
proof (induction ps arbitrary: buf)
  case Nil
  show ?case by simp
next
  case (Cons p ps)
  obtain evs r where lb: "loop_body tap_fd buf p = (evs, r)"
    by (cases "loop_body tap_fd buf p")
  note le = loop_body_ended [OF lb]
  show ?case
  proof (cases r)
    case (Inl oc)
    with le lb show ?thesis
      by simp
  next
    case (Inr b)
    with le have nf: "filter is_final evs = []"
      by simp
    from lb Inr have "main_loop tap_fd buf (p # ps)
        = (evs @ fst (main_loop tap_fd b ps), snd (main_loop tap_fd b ps))"
      by (simp split: prod.splits)
    with well_ended_prepend [OF nf Cons.IH [of b]] show ?thesis
      by simp
  qed
qed

section \<open>The whole run\<close>

lemma host_read_at_most_mtu:
  "fd_read tap_fd buf MTU_SIZE r = (evs, Inr (nbytes, buf')) \<Longrightarrow>
   evs = [EvRead tap_fd MTU_SIZE] \<and> 0 \<le> nbytes \<and> nbytes \<le> int MTU_SIZE
     \<and> (\<forall>k\<ge>MTU_SIZE. buf' k = buf k)"
  by (auto simp: fd_read_def sys_read_def split: option.splits if_splits)

lemma main_loop_outcome:
  "snd (main_loop tap_fd buf ps) \<in> {Returned (- 5), Exited 1, Running}"
  using main_loop_ended [of tap_fd buf ps]
  by (cases "snd (main_loop tap_fd buf ps)") simp_all

lemma main_loop_close:
  "filter is_close (fst (main_loop tap_fd buf ps))
     = (if snd (main_loop tap_fd buf ps) = Returned (- 5) then [EvClose tap_fd] else [])"
  using main_loop_ended [of tap_fd buf ps]
  by (cases "snd (main_loop tap_fd buf ps)")
    (auto dest: ends_with_close ends_with_exit no_final_no_close)

lemma main_loop_last_close:
  "(snd (main_loop tap_fd buf ps) = Returned (- 5))
     = (fst (main_loop tap_fd buf ps) \<noteq> [] \<and> last (fst (main_loop tap_fd buf ps)) = EvClose tap_fd)"
proof (cases "snd (main_loop tap_fd buf ps)")
  case (Returned c)
  with main_loop_ended [of tap_fd buf ps] show ?thesis
    by (auto dest: ends_with_close)
next
  case (Exited c)
  with main_loop_ended [of tap_fd buf ps] show ?thesis
    by (auto dest: ends_with_exit)
next
  case Running
  with main_loop_ended [of tap_fd buf ps] no_final_last [of "fst (main_loop tap_fd buf ps)"]
  show ?thesis
    by auto
qed

lemma main_loop_last_exit:
  "(snd (main_loop tap_fd buf ps) \<in> range Exited)
     = (fst (main_loop tap_fd buf ps) \<noteq> [] \<and> last (fst (main_loop tap_fd buf ps)) = EvExit 1)"
proof (cases "snd (main_loop tap_fd buf ps)")
  case (Returned c)
  with main_loop_ended [of tap_fd buf ps] show ?thesis
    by (auto dest: ends_with_close)
next
  case (Exited c)
  with main_loop_ended [of tap_fd buf ps] show ?thesis
    by (auto dest: ends_with_exit)
next
  case Running
  with main_loop_ended [of tap_fd buf ps] no_final_last [of "fst (main_loop tap_fd buf ps)"]
  show ?thesis
    by auto
qed

lemma loop_body_returns:
  "(snd (loop_body tap_fd buf p) = Inl (Returned c)) = (c = - 5 \<and> poll_failed p)"
proof (cases "poll_failed p")
  case True
  then show ?thesis
    by (auto simp: loop_body_poll_failed)
next
  case False
  obtain evs r where lb: "loop_body tap_fd buf p = (evs, r)"
    by (cases "loop_body tap_fd buf p")
  from loop_body_ended [OF lb] False lb show ?thesis
    by (cases r) auto
qed

lemma eth_dpi_main_outcome:
  "snd (eth_dpi_main argc argv s ps)
     = (if open_ret s < 0 then Returned (- 1)
        else if ioctl_ret s < 0 then Returned (- 2)
        else snd (main_loop (open_ret s) buffer ps))"
  by (simp add: eth_dpi_main_def Let_def split: prod.splits)

lemma eth_dpi_main_trace:
  "fst (eth_dpi_main argc argv s ps)
     = (if open_ret s < 0
        then [EvOpen ''/dev/net/tun'' O_RDWR, EvLog (OpenFailed (open_ret s))]
        else if ioctl_ret s < 0
        then [EvOpen ''/dev/net/tun'' O_RDWR,
              EvIoctl (open_ret s) ''tap0'' (IFF_TAP OR IFF_NO_PI),
              EvLog (SetNameFailed (open_ret s) (ioctl_errno s)), EvClose (open_ret s)]
        else [EvOpen ''/dev/net/tun'' O_RDWR,
              EvIoctl (open_ret s) ''tap0'' (IFF_TAP OR IFF_NO_PI),
              EvLog (TapReady ''tap0''),
              EvFcntlGet (open_ret s), EvFcntlSet (open_ret s) (getfl_ret s OR O_NONBLOCK)]
             @ fst (main_loop (open_ret s) buffer ps))"
  by (simp add: eth_dpi_main_def Let_def tap_name_def IFNAMSIZ_def split: prod.splits)

lemma ioctl_names_append: "ioctl_names (xs @ ys) = ioctl_names xs @ ioctl_names ys"
  by (induction xs rule: ioctl_names.induct) simp_all

lemma ioctl_names_none:
  "set xs \<subseteq> A \<Longrightarrow> (\<And>fd name flags. EvIoctl fd name flags \<notin> A) \<Longrightarrow> ioctl_names xs = []"
proof (induction xs rule: ioctl_names.induct)
  case 1
  show ?case by simp
next
  case (2 fd name flags es)
  then show ?case by auto
qed simp_all

lemma outbound_no_ioctl: "ioctl_names (fst (outbound tap_fd buf p)) = []"
proof -
  have pb: "ioctl_names (print_bytes b n) = []" for b n
    by (rule ioctl_names_none [OF print_bytes_events]) auto
  have tx: "ioctl_names (tx_loop b n i) = []" for b n i
    by (rule ioctl_names_none [OF tx_loop_events]) auto
  show ?thesis
    by (simp add: outbound_def fd_read_def sys_read_def ioctl_names_append pb tx
        split: option.splits)
qed

lemma inbound_no_ioctl: "ioctl_names (fst (inbound tap_fd buf p)) = []"
proof (cases "0 < npkt_in p")
  case False
  then show ?thesis
    by (simp add: inbound_idle)
next
  case True
  have rx: "ioctl_names (map rx_call ks) = []" for ks
    by (rule ioctl_names_none [OF rx_call_events]) auto
  from True show ?thesis
    by (simp add: inbound_frame ioctl_names_append rx)
qed

lemma loop_body_no_ioctl: "ioctl_names (fst (loop_body tap_fd buf p)) = []"
proof (cases "select_ret p < 0")
  case True
  then show ?thesis
    by (simp add: loop_body_def)
next
  case False
  then show ?thesis
    by (simp add: loop_body_halves ioctl_names_append outbound_no_ioctl inbound_no_ioctl
        split: sum.splits)
qed

lemma main_loop_no_ioctl: "ioctl_names (fst (main_loop tap_fd buf ps)) = []"
proof (induction ps arbitrary: buf)
  case Nil
  show ?case by simp
next
  case (Cons p ps)
  then show ?case
    by (simp add: main_loop_step ioctl_names_append loop_body_no_ioctl
        del: main_loop.simps split: sum.splits)
qed




lemma stores_outside_append:
  "stores_outside (xs @ ys) = stores_outside xs @ stores_outside ys"
  by (induction xs rule: stores_outside.induct) simp_all

lemma stores_outside_calls: "stores_outside (map rx_call [0..<n]) = [MTU_SIZE..<n]"
proof (induction n)
  case 0
  show ?case by simp
next
  case (Suc n)
  then show ?case
    by (simp add: stores_outside_append rx_call_def)
qed

lemma stores_outside_none:
  "set xs \<subseteq> A \<Longrightarrow> (\<And>off idx. EvGetData off idx \<notin> A) \<Longrightarrow> stores_outside xs = []"
proof (induction xs rule: stores_outside.induct)
  case 1
  show ?case by simp
next
  case (2 off idx es)
  then show ?case by auto
qed simp_all

lemma stores_outside_inbound:
  "stores_outside (fst (inbound tap_fd buf p))
     = (if 0 < npkt_in p then [MTU_SIZE..<nat (pkt_len_in p)] else [])"
  by (simp add: inbound_frame inbound_idle stores_outside_append stores_outside_calls)

lemma stores_outside_outbound: "stores_outside (fst (outbound tap_fd buf p)) = []"
proof -
  have pb: "stores_outside (print_bytes b n) = []" for b n
    by (rule stores_outside_none [OF print_bytes_events]) auto
  have tx: "stores_outside (tx_loop b n i) = []" for b n i
    by (rule stores_outside_none [OF tx_loop_events]) auto
  show ?thesis
    by (simp add: outbound_def fd_read_def sys_read_def stores_outside_append pb tx
        split: option.splits)
qed

text \<open>The outbound half keeps every store inside the array; the inbound half stores outside
  it exactly when the pulled length is above \<open>MTU_SIZE\<close>.\<close>

lemma stores_outside_pass:
  "stores_outside (fst (loop_body tap_fd buf p))
     = (if 0 \<le> select_ret p \<and> (fd_isset p \<longrightarrow> read_in p \<noteq> None) \<and> 0 < npkt_in p
        then [MTU_SIZE..<nat (pkt_len_in p)] else [])"
proof (cases "select_ret p < 0")
  case True
  then show ?thesis
    by (simp add: loop_body_def)
next
  case False
  then have sel: "0 \<le> select_ret p"
    by simp
  show ?thesis
  proof (cases "snd (outbound tap_fd buf p)")
    case (Inl oc)
    then have "fd_isset p \<and> read_in p = None"
      by (auto simp: outbound_def fd_read_def sys_read_def split: if_splits option.splits)
    with sel Inl show ?thesis
      by (simp add: loop_body_halves stores_outside_append stores_outside_outbound)
  next
    case (Inr b)
    then have "fd_isset p \<longrightarrow> read_in p \<noteq> None"
      by (cases "read_in p") (auto simp: outbound_fail)
    with sel Inr show ?thesis
      by (simp add: loop_body_halves stores_outside_append stores_outside_outbound
          stores_outside_inbound)
  qed
qed

section \<open>The claims\<close>

text \<open>
  Claim C1, on the code. A frame from the host is read with a count of \<open>MTU_SIZE\<close>, so its
  length is between 0 and 1500. A length pulled from the peer is not compared with anything:
  with one packet queued and a pulled length of 1501, the loop asks the peer for the bytes
  \<open>0\<close> to \<open>1500\<close>, the last of these calls stores at offset 1500, which is outside the
  array of 1500 bytes, and \<open>write\<close> is then called with a count of 1501. The frame is
  neither rejected nor discarded.
\<close>

theorem oversize_inbound_frame_not_rejected:
  "eth_dpi_main 0 []
     \<lparr>open_ret = 3, ioctl_ret = 0, ioctl_errno = 0, getfl_ret = 2\<rparr>
     [\<lparr>select_ret = 0, select_errno = 0, fd_isset = False, read_in = None,
       npkt_in = 1, pkt_len_in = 1501, pkt_data_in = ucast, write_ret = 1501\<rparr>]
   = ([EvOpen ''/dev/net/tun'' O_RDWR, EvIoctl 3 ''tap0'' (IFF_TAP OR IFF_NO_PI),
       EvLog (TapReady ''tap0''), EvFcntlGet 3, EvFcntlSet 3 (2 OR O_NONBLOCK),
       EvDelay 1000, EvSelect 4, EvPktValid, EvPktPull, EvLog (SendPacket 1501)]
        @ map rx_call [0..<1501]
        @ [EvWrite 3 1501 (map (ucast \<circ> (word_of_nat :: nat \<Rightarrow> 16 word)) [0..<1501])],
      Running)
   \<and> rx_call 1500 = EvGetData 1500 1500
   \<and> stores_outside (fst (eth_dpi_main 0 []
        \<lparr>open_ret = 3, ioctl_ret = 0, ioctl_errno = 0, getfl_ret = 2\<rparr>
        [\<lparr>select_ret = 0, select_errno = 0, fd_isset = False, read_in = None,
          npkt_in = 1, pkt_len_in = 1501, pkt_data_in = ucast, write_ret = 1501\<rparr>]))
      = [1500]
   \<and> MTU_SIZE = 1500"
proof -
  let ?s = "\<lparr>open_ret = 3, ioctl_ret = 0, ioctl_errno = 0, getfl_ret = 2\<rparr>"
  let ?p = "\<lparr>select_ret = 0, select_errno = 0, fd_isset = False, read_in = None,
      npkt_in = 1, pkt_len_in = 1501, pkt_data_in = ucast, write_ret = 1501\<rparr>"
  have h1: "0 < npkt_in ?p"
    by simp
  have h3: "0 \<le> select_ret ?p"
    by simp
  have h4: "\<not> fd_isset ?p"
    by simp
  have c: "map (\<lambda>k. ucast (word_of_nat k :: 16 word) :: byte) xs
      = map (ucast \<circ> (word_of_nat :: nat \<Rightarrow> 16 word)) xs" for xs
    by simp
  have body: "fst (loop_body 3 buffer ?p)
      = [EvDelay 1000, EvSelect 4, EvPktValid, EvPktPull, EvLog (SendPacket 1501)]
          @ map rx_call [0..<1501]
          @ [EvWrite 3 1501 (map (ucast \<circ> (word_of_nat :: nat \<Rightarrow> 16 word)) [0..<1501])]"
    and cont: "\<exists>b. snd (loop_body 3 buffer ?p) = Inr b"
    by (simp_all add: loop_body_polled [OF h3] outbound_idle [OF h4]
        inbound_frame [OF h1, of 3] c)
  from cont obtain b where b: "snd (loop_body 3 buffer ?p) = Inr b"
    by blast
  have ml: "main_loop 3 buffer [?p] = (fst (loop_body 3 buffer ?p), Running)"
    by (simp add: main_loop_step [of 3 buffer ?p "[]"] b del: main_loop.simps(2))
  have run: "eth_dpi_main 0 [] ?s [?p]
   = ([EvOpen ''/dev/net/tun'' O_RDWR, EvIoctl 3 ''tap0'' (IFF_TAP OR IFF_NO_PI),
       EvLog (TapReady ''tap0''), EvFcntlGet 3, EvFcntlSet 3 (2 OR O_NONBLOCK),
       EvDelay 1000, EvSelect 4, EvPktValid, EvPktPull, EvLog (SendPacket 1501)]
        @ map rx_call [0..<1501]
        @ [EvWrite 3 1501 (map (ucast \<circ> (word_of_nat :: nat \<Rightarrow> 16 word)) [0..<1501])],
      Running)"
    by (rule prod_eqI)
      (simp_all add: eth_dpi_main_trace eth_dpi_main_outcome ml body del: main_loop.simps)
  have call: "rx_call 1500 = EvGetData 1500 1500"
    by (simp add: rx_call_def)
  have "stores_outside (fst (eth_dpi_main 0 [] ?s [?p])) = [MTU_SIZE..<1501]"
    unfolding run by (simp add: stores_outside_append stores_outside_calls)
  then have out: "stores_outside (fst (eth_dpi_main 0 [] ?s [?p])) = [1500]"
    by (simp add: MTU_SIZE_def)
  have mtu: "MTU_SIZE = 1500"
    by (simp add: MTU_SIZE_def)
  from run call out mtu show ?thesis
    by (intro conjI)
qed

text \<open>
  Claim C2, as the code has it. In a pass whose poll succeeded and found the descriptor
  readable, a \<open>read\<close> that returns zero or less is handled in one of two ways. A negative
  result is fatal: \<open>fd_read\<close> reports it and calls \<open>exit(1)\<close>, and the pass makes no further
  call. A result of zero is logged as a bad packet, nothing is pushed to the peer, the buffer
  stays as it was, and the pass goes on with its inbound half.
\<close>

theorem nonpositive_read_exits_or_skips:
  assumes "0 \<le> select_ret p" and "fd_isset p"
    and "fst (sys_read buf MTU_SIZE (read_in p)) \<le> 0"
  shows "loop_body tap_fd buf p
     = (if fst (sys_read buf MTU_SIZE (read_in p)) < 0
        then ([EvDelay 1000, EvSelect (tap_fd + 1), EvRead tap_fd MTU_SIZE,
               EvPerror ''Reading data'', EvExit 1], Inl (Exited 1))
        else ([EvDelay 1000, EvSelect (tap_fd + 1), EvRead tap_fd MTU_SIZE,
               EvLog (BadPacket 0)] @ fst (inbound tap_fd buf p),
              snd (inbound tap_fd buf p)))"
proof (cases "read_in p")
  case None
  with assms(1,2) show ?thesis
    by (simp add: loop_body_polled outbound_fail sys_read_def)
next
  case (Some d)
  with assms(3) have "d = []"
    by (cases d) (simp_all add: sys_read_def MTU_SIZE_def)
  with Some assms(1,2) show ?thesis
    by (simp add: loop_body_polled outbound_empty sys_read_def)
qed

theorem nonpositive_read_exits_or_skips_witness:
  "0 \<le> select_ret \<lparr>select_ret = 1, select_errno = 0, fd_isset = True, read_in = Some [],
      npkt_in = 0, pkt_len_in = 0, pkt_data_in = ucast, write_ret = 0\<rparr>
   \<and> fd_isset \<lparr>select_ret = 1, select_errno = 0, fd_isset = True, read_in = Some [],
      npkt_in = 0, pkt_len_in = 0, pkt_data_in = ucast, write_ret = 0\<rparr>
   \<and> fst (sys_read buffer MTU_SIZE (read_in
        \<lparr>select_ret = 1, select_errno = 0, fd_isset = True, read_in = Some [],
          npkt_in = 0, pkt_len_in = 0, pkt_data_in = ucast, write_ret = 0\<rparr>)) \<le> 0
   \<and> loop_body 3 buffer
        \<lparr>select_ret = 1, select_errno = 0, fd_isset = True, read_in = Some [],
          npkt_in = 0, pkt_len_in = 0, pkt_data_in = ucast, write_ret = 0\<rparr>
      = ([EvDelay 1000, EvSelect 4, EvRead 3 MTU_SIZE, EvLog (BadPacket 0), EvPktValid],
         Inr buffer)"
proof -
  let ?p = "\<lparr>select_ret = 1, select_errno = 0, fd_isset = True, read_in = Some [],
      npkt_in = 0, pkt_len_in = 0, pkt_data_in = ucast, write_ret = 0\<rparr>"
  have h1: "0 \<le> select_ret ?p"
    by simp
  have h2: "fd_isset ?p"
    by simp
  have h3: "fst (sys_read buffer MTU_SIZE (read_in ?p)) \<le> 0"
    by (simp add: sys_read_def)
  have "loop_body 3 buffer ?p
      = ([EvDelay 1000, EvSelect 4, EvRead 3 MTU_SIZE, EvLog (BadPacket 0), EvPktValid],
         Inr buffer)"
    using nonpositive_read_exits_or_skips [OF h1 h2 h3, of 3]
    by (simp add: sys_read_def inbound_def)
  with h1 h2 h3 show ?thesis
    by (intro conjI)
qed

theorem negative_read_terminates_process:
  "eth_dpi_main 0 []
     \<lparr>open_ret = 3, ioctl_ret = 0, ioctl_errno = 0, getfl_ret = 2\<rparr>
     [\<lparr>select_ret = 1, select_errno = 0, fd_isset = True, read_in = None,
       npkt_in = 1, pkt_len_in = 2, pkt_data_in = ucast, write_ret = 2\<rparr>]
   = ([EvOpen ''/dev/net/tun'' O_RDWR, EvIoctl 3 ''tap0'' (IFF_TAP OR IFF_NO_PI),
       EvLog (TapReady ''tap0''), EvFcntlGet 3, EvFcntlSet 3 (2 OR O_NONBLOCK),
       EvDelay 1000, EvSelect 4, EvRead 3 MTU_SIZE, EvPerror ''Reading data'', EvExit 1],
      Exited 1)"
  by (simp add: eth_dpi_main_def loop_body_def outbound_def fd_read_def sys_read_def
      tap_name_def IFNAMSIZ_def)

text \<open>
  Claim C3. In every pass of the loop, the calls to \<open>host_tx_data_push\<close> and
  \<open>host_tx_transfer_init\<close> are, in this order: one push for each byte of the frame that
  \<open>read\<close> returned, first byte first, and then one single transfer-init, when the poll did
  not fail, the descriptor is readable and the frame has a positive length; in every other
  pass there is no such call at all.
\<close>

theorem outbound_push_then_commit:
  "filter is_tx (fst (loop_body tap_fd buf p))
     = (case read_in p of
          None \<Rightarrow> []
        | Some d \<Rightarrow>
            if 0 \<le> select_ret p \<and> fd_isset p \<and> d \<noteq> []
            then map EvPush (take MTU_SIZE d) @ [EvTransferInit]
            else [])"
proof (cases "select_ret p < 0")
  case True
  then show ?thesis
    by (simp add: loop_body_def split: option.splits)
next
  case False
  obtain oevs r where ob: "outbound tap_fd buf p = (oevs, r)"
    by (cases "outbound tap_fd buf p")
  have otx: "filter is_tx oevs
     = (case read_in p of
          None \<Rightarrow> []
        | Some d \<Rightarrow> if fd_isset p \<and> d \<noteq> [] then map EvPush (take MTU_SIZE d) @ [EvTransferInit]
                   else [])"
    using outbound_tx [of tap_fd buf p] ob by simp
  from False have "filter is_tx (fst (loop_body tap_fd buf p)) = filter is_tx oevs"
    by (cases r) (simp_all add: loop_body_polled ob inbound_tx)
  with False otx show ?thesis
    by (simp split: option.splits)
qed

text \<open>
  Claim C4, as the code has it. \<open>eth_dpi_main\<close> calls \<open>close\<close> on the descriptor exactly
  when it returns \<open>-2\<close> (the interface could not be configured) or \<open>-5\<close> (a poll failure
  that is not retried), and \<open>close\<close> is then its last call. When it returns \<open>-1\<close> the device
  could not be opened and there is nothing to close. When a failed \<open>read\<close> or \<open>write\<close> ends
  the process, the last call is \<open>exit(1)\<close> and \<open>close\<close> has not been called.
\<close>

theorem close_only_before_return:
  "filter is_close (fst (eth_dpi_main argc argv s ps))
     = (if snd (eth_dpi_main argc argv s ps) = Returned (- 2)
          \<or> snd (eth_dpi_main argc argv s ps) = Returned (- 5)
        then [EvClose (open_ret s)] else [])
   \<and> (snd (eth_dpi_main argc argv s ps) = Returned (- 2)
         \<or> snd (eth_dpi_main argc argv s ps) = Returned (- 5))
     = (last (fst (eth_dpi_main argc argv s ps)) = EvClose (open_ret s))
   \<and> (snd (eth_dpi_main argc argv s ps) = Returned (- 1)) = (open_ret s < 0)
   \<and> (snd (eth_dpi_main argc argv s ps) \<in> range Exited)
     = (last (fst (eth_dpi_main argc argv s ps)) = EvExit 1)"
proof -
  let ?r = "eth_dpi_main argc argv s ps"
  let ?m = "main_loop (open_ret s) buffer ps"
  note oc = eth_dpi_main_outcome [of argc argv s ps]
  note tr = eth_dpi_main_trace [of argc argv s ps]
  note mo = main_loop_outcome [of "open_ret s" buffer ps]
  have a: "filter is_close (fst ?r)
     = (if snd ?r = Returned (- 2) \<or> snd ?r = Returned (- 5) then [EvClose (open_ret s)] else [])"
    using mo by (auto simp: oc tr main_loop_close)
  have b: "(snd ?r = Returned (- 2) \<or> snd ?r = Returned (- 5))
     = (last (fst ?r) = EvClose (open_ret s))"
    using mo main_loop_last_close [of "open_ret s" buffer ps]
    by (auto simp: oc tr)
  have c: "(snd ?r = Returned (- 1)) = (open_ret s < 0)"
    using mo by (auto simp: oc)
  have d: "(snd ?r \<in> range Exited) = (last (fst ?r) = EvExit 1)"
    using mo main_loop_last_exit [of "open_ret s" buffer ps]
    by (auto simp: oc tr)
  from a b c d show ?thesis
    by (intro conjI)
qed

theorem write_failure_exits_without_close:
  "eth_dpi_main 0 []
     \<lparr>open_ret = 3, ioctl_ret = 0, ioctl_errno = 0, getfl_ret = 2\<rparr>
     [\<lparr>select_ret = 0, select_errno = 0, fd_isset = False, read_in = None,
       npkt_in = 1, pkt_len_in = 2, pkt_data_in = ucast, write_ret = - 1\<rparr>]
   = ([EvOpen ''/dev/net/tun'' O_RDWR, EvIoctl 3 ''tap0'' (IFF_TAP OR IFF_NO_PI),
       EvLog (TapReady ''tap0''), EvFcntlGet 3, EvFcntlSet 3 (2 OR O_NONBLOCK),
       EvDelay 1000, EvSelect 4, EvPktValid, EvPktPull, EvLog (SendPacket 2),
       EvGetData 0 0, EvGetData 1 1, EvWrite 3 2 [0, 1], EvPerror ''Writing data'', EvExit 1],
      Exited 1)
   \<and> EvClose 3 \<notin> set (fst (eth_dpi_main 0 []
     \<lparr>open_ret = 3, ioctl_ret = 0, ioctl_errno = 0, getfl_ret = 2\<rparr>
     [\<lparr>select_ret = 0, select_errno = 0, fd_isset = False, read_in = None,
       npkt_in = 1, pkt_len_in = 2, pkt_data_in = ucast, write_ret = - 1\<rparr>]))"
proof -
  let ?p = "\<lparr>select_ret = 0, select_errno = 0, fd_isset = False, read_in = None,
      npkt_in = 1, pkt_len_in = 2, pkt_data_in = ucast, write_ret = - 1\<rparr>"
  have h1: "0 < npkt_in ?p"
    by simp
  have h5: "0 \<le> select_ret ?p"
    by simp
  have h6: "\<not> fd_isset ?p"
    by simp
  have up: "[0..<2] = [0, Suc 0]"
    by (simp add: upt_rec)
  have "loop_body 3 buffer ?p
      = ([EvDelay 1000, EvSelect 4, EvPktValid, EvPktPull, EvLog (SendPacket 2),
          EvGetData 0 0, EvGetData 1 1, EvWrite 3 2 [0, 1], EvPerror ''Writing data'',
          EvExit 1],
         Inl (Exited 1))"
    by (simp add: loop_body_polled [OF h5] outbound_idle [OF h6]
        inbound_frame [OF h1, of 3] up rx_call_def)
  then have "eth_dpi_main 0 []
     \<lparr>open_ret = 3, ioctl_ret = 0, ioctl_errno = 0, getfl_ret = 2\<rparr> [?p]
   = ([EvOpen ''/dev/net/tun'' O_RDWR, EvIoctl 3 ''tap0'' (IFF_TAP OR IFF_NO_PI),
       EvLog (TapReady ''tap0''), EvFcntlGet 3, EvFcntlSet 3 (2 OR O_NONBLOCK),
       EvDelay 1000, EvSelect 4, EvPktValid, EvPktPull, EvLog (SendPacket 2),
       EvGetData 0 0, EvGetData 1 1, EvWrite 3 2 [0, 1], EvPerror ''Writing data'', EvExit 1],
      Exited 1)"
    by (simp add: eth_dpi_main_def tap_name_def IFNAMSIZ_def)
  then show ?thesis
    by simp
qed

text \<open>
  Claim C5, as the code has it. When \<open>select\<close> returns a negative value, the pass ends
  there. With \<open>errno\<close> equal to \<open>EINTR\<close> or to \<open>EAGAIN\<close> the pass has made the delay and
  the poll only, the buffer is as it was, and the loop goes on with the next pass. With any
  other \<open>errno\<close> the failure is reported, the descriptor is closed and the function returns
  \<open>-5\<close>.
\<close>

theorem poll_failure_retry_or_fatal:
  assumes "select_ret p < 0"
  shows "main_loop tap_fd buf (p # ps)
     = (if select_errno p = EINTR \<or> select_errno p = EAGAIN
        then ([EvDelay 1000, EvSelect (tap_fd + 1)] @ fst (main_loop tap_fd buf ps),
              snd (main_loop tap_fd buf ps))
        else ([EvDelay 1000, EvSelect (tap_fd + 1),
               EvLog (SelectFailed tap_fd (select_errno p)), EvClose tap_fd], Returned (- 5)))"
proof (cases "select_errno p = EINTR \<or> select_errno p = EAGAIN")
  case True
  with assms have "loop_body tap_fd buf p = ([EvDelay 1000, EvSelect (tap_fd + 1)], Inr buf)"
    by (rule loop_body_retry)
  with True show ?thesis
    by (simp split: prod.splits)
next
  case False
  with assms have "poll_failed p"
    by (simp add: poll_failed_def)
  with False show ?thesis
    by (simp add: loop_body_poll_failed)
qed

theorem poll_failure_retry_or_fatal_witness:
  "select_ret \<lparr>select_ret = - 1, select_errno = 9, fd_isset = False, read_in = None,
      npkt_in = 0, pkt_len_in = 0, pkt_data_in = ucast, write_ret = 0\<rparr> < 0
   \<and> main_loop 3 buffer
        [\<lparr>select_ret = - 1, select_errno = 9, fd_isset = False, read_in = None,
          npkt_in = 0, pkt_len_in = 0, pkt_data_in = ucast, write_ret = 0\<rparr>]
      = ([EvDelay 1000, EvSelect 4, EvLog (SelectFailed 3 9), EvClose 3], Returned (- 5))"
  using poll_failure_retry_or_fatal
    [of "\<lparr>select_ret = - 1, select_errno = 9, fd_isset = False, read_in = None,
          npkt_in = 0, pkt_len_in = 0, pkt_data_in = ucast, write_ret = 0\<rparr>" 3 buffer "[]"]
  by (simp add: EINTR_def EAGAIN_def)

theorem eagain_poll_failure_not_fatal:
  "eth_dpi_main 0 []
     \<lparr>open_ret = 3, ioctl_ret = 0, ioctl_errno = 0, getfl_ret = 2\<rparr>
     [\<lparr>select_ret = - 1, select_errno = EAGAIN, fd_isset = False, read_in = None,
       npkt_in = 0, pkt_len_in = 0, pkt_data_in = ucast, write_ret = 0\<rparr>]
   = ([EvOpen ''/dev/net/tun'' O_RDWR, EvIoctl 3 ''tap0'' (IFF_TAP OR IFF_NO_PI),
       EvLog (TapReady ''tap0''), EvFcntlGet 3, EvFcntlSet 3 (2 OR O_NONBLOCK),
       EvDelay 1000, EvSelect 4], Running)"
  by (simp add: eth_dpi_main_def loop_body_def tap_name_def IFNAMSIZ_def)




text \<open>
  Claim C7. In a pass where the poll succeeded, the descriptor is readable, \<open>read\<close> returns
  a frame of positive length and the peer reports at least one packet, the calls of the pass
  are: the delay, the poll, one \<open>read\<close>, the pushes of the frame's bytes and one
  transfer-init; and after them the count query, one pull, the indexed reads of the packet's
  bytes and one \<open>write\<close> of these bytes. Each direction is served once, the outbound one
  first, whatever the pulled length is.
\<close>

theorem one_frame_each_way_outbound_first:
  assumes "0 \<le> select_ret p" and "fd_isset p" and "read_in p = Some d" and "d \<noteq> []"
    and "0 < npkt_in p"
  shows "fst (loop_body tap_fd buf p)
     = [EvDelay 1000, EvSelect (tap_fd + 1)]
         @ [EvRead tap_fd MTU_SIZE, EvLog (TapRd (int (length (take MTU_SIZE d))))]
         @ print_bytes (\<lambda>k. if k < length (take MTU_SIZE d) then take MTU_SIZE d ! k else buf k)
             (length (take MTU_SIZE d))
         @ map EvPush (take MTU_SIZE d) @ [EvTransferInit]
         @ [EvPktValid, EvPktPull, EvLog (SendPacket (pkt_len_in p))]
         @ map rx_call [0..<nat (pkt_len_in p)]
         @ [EvWrite tap_fd (pkt_len_in p)
              (map (\<lambda>k. pkt_data_in p (word_of_nat k)) [0..<nat (pkt_len_in p)])]
         @ (if write_ret p < 0 then [EvPerror ''Writing data'', EvExit 1] else [])"
proof -
  note ob = outbound_frame [OF assms(2,3,4), of tap_fd buf]
  from assms(1) show ?thesis
    by (simp add: loop_body_polled ob inbound_frame [OF assms(5)] del: length_take)
qed

theorem one_frame_each_way_outbound_first_witness:
  "0 \<le> select_ret \<lparr>select_ret = 1, select_errno = 0, fd_isset = True, read_in = Some [7, 9],
      npkt_in = 1, pkt_len_in = 2, pkt_data_in = ucast, write_ret = 2\<rparr>
   \<and> fd_isset \<lparr>select_ret = 1, select_errno = 0, fd_isset = True, read_in = Some [7, 9],
      npkt_in = 1, pkt_len_in = 2, pkt_data_in = ucast, write_ret = 2\<rparr>
   \<and> read_in \<lparr>select_ret = 1, select_errno = 0, fd_isset = True, read_in = Some [7, 9],
      npkt_in = 1, pkt_len_in = 2, pkt_data_in = ucast, write_ret = 2\<rparr> = Some [7, 9]
   \<and> [7, 9 :: byte] \<noteq> []
   \<and> 0 < npkt_in \<lparr>select_ret = 1, select_errno = 0, fd_isset = True, read_in = Some [7, 9],
      npkt_in = 1, pkt_len_in = 2, pkt_data_in = ucast, write_ret = 2\<rparr>
   \<and> fst (loop_body 3 buffer
        \<lparr>select_ret = 1, select_errno = 0, fd_isset = True, read_in = Some [7, 9],
          npkt_in = 1, pkt_len_in = 2, pkt_data_in = ucast, write_ret = 2\<rparr>)
      = [EvDelay 1000, EvSelect 4, EvRead 3 1500, EvLog (TapRd 2),
         EvLog (Hex 7), EvLog (Hex 9), EvLog Newline,
         EvPush 7, EvPush 9, EvTransferInit,
         EvPktValid, EvPktPull, EvLog (SendPacket 2), EvGetData 0 0, EvGetData 1 1,
         EvWrite 3 2 [0, 1]]"
proof -
  let ?p = "\<lparr>select_ret = 1, select_errno = 0, fd_isset = True, read_in = Some [7, 9],
      npkt_in = 1, pkt_len_in = 2, pkt_data_in = ucast, write_ret = 2\<rparr>"
  have h1: "0 \<le> select_ret ?p"
    by simp
  have h2: "fd_isset ?p"
    by simp
  have h3: "read_in ?p = Some [7, 9]"
    by simp
  have h4: "[7, 9 :: byte] \<noteq> []"
    by simp
  have h5: "0 < npkt_in ?p"
    by simp
  have up: "[0..<2] = [0, Suc 0]"
    by (simp add: upt_rec)
  have pb: "print_bytes m (Suc (Suc 0))
      = [EvLog (Hex (m 0)), EvLog (Hex (m (Suc 0))), EvLog Newline]" for m
    by (simp add: print_bytes_def print_bytes_loop.simps)
  have "fst (loop_body 3 buffer ?p)
      = [EvDelay 1000, EvSelect 4, EvRead 3 1500, EvLog (TapRd 2),
         EvLog (Hex 7), EvLog (Hex 9), EvLog Newline,
         EvPush 7, EvPush 9, EvTransferInit,
         EvPktValid, EvPktPull, EvLog (SendPacket 2), EvGetData 0 0, EvGetData 1 1,
         EvWrite 3 2 [0, 1]]"
    using one_frame_each_way_outbound_first [OF h1 h2 h3 h4 h5, of 3 buffer]
    by (simp add: up MTU_SIZE_def rx_call_def pb)
  with h1 h2 h3 h4 h5 show ?thesis
    by (intro conjI)
qed

text \<open>
  Claim C8. \<open>eth_dpi_main\<close> returns \<open>-1\<close> when the device cannot be opened, \<open>-2\<close> when
  the interface cannot be configured, and otherwise what the main loop gives. The main loop
  goes through the passes in order: at the first pass whose poll fails with an \<open>errno\<close> that
  is not retried it returns \<open>-5\<close>, and so does \<open>eth_dpi_main\<close>; a pass returns in no
  other case and with no other code. The three codes are negative and differ from one
  another, and no run returns \<open>0\<close>: the loop has no way out to the statements after it.
\<close>

theorem return_codes:
  "snd (eth_dpi_main argc argv s ps)
     = (if open_ret s < 0 then Returned (- 1)
        else if ioctl_ret s < 0 then Returned (- 2)
        else snd (main_loop (open_ret s) buffer ps))
   \<and> main_loop tap_fd buf [] = ([], Running)
   \<and> snd (main_loop tap_fd buf (p # qs))
     = (if poll_failed p then Returned (- 5)
        else case snd (loop_body tap_fd buf p) of
               Inl oc \<Rightarrow> oc
             | Inr buf' \<Rightarrow> snd (main_loop tap_fd buf' qs))
   \<and> snd (eth_dpi_main argc argv s (p # qs))
     = (if open_ret s < 0 then Returned (- 1)
        else if ioctl_ret s < 0 then Returned (- 2)
        else if poll_failed p then Returned (- 5)
        else case snd (loop_body (open_ret s) buffer p) of
               Inl oc \<Rightarrow> oc
             | Inr buf' \<Rightarrow> snd (main_loop (open_ret s) buf' qs))
   \<and> snd (main_loop tap_fd buf ps) \<in> {Returned (- 5), Exited 1, Running}
   \<and> (snd (loop_body tap_fd buf p) = Inl (Returned (- 5))) = poll_failed p
   \<and> (snd (loop_body tap_fd buf p) \<in> range (Inl \<circ> Returned)) = poll_failed p
   \<and> snd (eth_dpi_main argc argv s ps) \<noteq> Returned 0
   \<and> snd (eth_dpi_main argc argv s ps)
       \<in> {Returned (- 1), Returned (- 2), Returned (- 5), Exited 1, Running}"
proof -
  note oc = eth_dpi_main_outcome [of argc argv s ps]
  note mo = main_loop_outcome [of "open_ret s" buffer ps]
  have c1: "main_loop tap_fd buf [] = ([], Running)"
    by simp
  have c2: "snd (main_loop fd b (p # qs))
     = (if poll_failed p then Returned (- 5)
        else case snd (loop_body fd b p) of
               Inl oc \<Rightarrow> oc
             | Inr buf' \<Rightarrow> snd (main_loop fd buf' qs))" for fd b
  proof (cases "poll_failed p")
    case True
    then show ?thesis
      by (simp add: loop_body_poll_failed)
  next
    case False
    then show ?thesis
      by (simp add: main_loop_step [of fd b p qs] del: main_loop.simps split: sum.splits)
  qed
  have c3: "snd (eth_dpi_main argc argv s (p # qs))
     = (if open_ret s < 0 then Returned (- 1)
        else if ioctl_ret s < 0 then Returned (- 2)
        else if poll_failed p then Returned (- 5)
        else case snd (loop_body (open_ret s) buffer p) of
               Inl oc \<Rightarrow> oc
             | Inr buf' \<Rightarrow> snd (main_loop (open_ret s) buf' qs))"
    by (simp add: eth_dpi_main_outcome c2 del: main_loop.simps)
  have c4: "(snd (loop_body tap_fd buf p) = Inl (Returned (- 5))) = poll_failed p"
    by (simp add: loop_body_returns)
  have c5: "(snd (loop_body tap_fd buf p) \<in> range (Inl \<circ> Returned)) = poll_failed p"
    by (auto simp: loop_body_returns image_iff)
  have c6: "snd (eth_dpi_main argc argv s ps) \<noteq> Returned 0"
    using mo by (auto simp: oc)
  have c7: "snd (eth_dpi_main argc argv s ps)
       \<in> {Returned (- 1), Returned (- 2), Returned (- 5), Exited 1, Running}"
    using mo by (auto simp: oc)
  from oc c1 c2 [of tap_fd buf] c3 main_loop_outcome [of tap_fd buf ps] c4 c5 c6 c7
  show ?thesis
    by (intro conjI)
qed

theorem return_codes_witness:
  "snd (eth_dpi_main 0 []
      \<lparr>open_ret = 3, ioctl_ret = 0, ioctl_errno = 0, getfl_ret = 2\<rparr>
      [\<lparr>select_ret = - 1, select_errno = EINTR, fd_isset = False, read_in = None,
        npkt_in = 0, pkt_len_in = 0, pkt_data_in = ucast, write_ret = 0\<rparr>,
       \<lparr>select_ret = - 1, select_errno = 9, fd_isset = False, read_in = None,
        npkt_in = 0, pkt_len_in = 0, pkt_data_in = ucast, write_ret = 0\<rparr>])
     = Returned (- 5)
   \<and> snd (eth_dpi_main 0 []
      \<lparr>open_ret = - 1, ioctl_ret = 0, ioctl_errno = 0, getfl_ret = 2\<rparr> []) = Returned (- 1)
   \<and> snd (eth_dpi_main 0 []
      \<lparr>open_ret = 3, ioctl_ret = - 1, ioctl_errno = 16, getfl_ret = 2\<rparr> []) = Returned (- 2)"
proof -
  let ?s = "\<lparr>open_ret = 3, ioctl_ret = 0, ioctl_errno = 0, getfl_ret = 2\<rparr>"
  let ?p1 = "\<lparr>select_ret = - 1, select_errno = EINTR, fd_isset = False, read_in = None,
      npkt_in = 0, pkt_len_in = 0, pkt_data_in = ucast, write_ret = 0\<rparr>"
  let ?p2 = "\<lparr>select_ret = - 1, select_errno = 9, fd_isset = False, read_in = None,
      npkt_in = 0, pkt_len_in = 0, pkt_data_in = ucast, write_ret = 0\<rparr>"
  have n1: "\<not> poll_failed ?p1"
    by (simp add: poll_failed_def)
  have f2: "poll_failed ?p2"
    by (simp add: poll_failed_def EINTR_def EAGAIN_def)
  have l1: "snd (loop_body 3 buffer ?p1) = Inr buffer"
    by (simp add: loop_body_retry)
  note a = return_codes [of 0 "[]" ?s "[?p1, ?p2]" 3 buffer ?p1 "[?p2]",
      THEN conjunct2, THEN conjunct2, THEN conjunct2, THEN conjunct1]
  note b = return_codes [of 0 "[]" ?s "[]" 3 buffer ?p2 "[]",
      THEN conjunct2, THEN conjunct2, THEN conjunct1]
  from b f2 have "snd (main_loop 3 buffer [?p2]) = Returned (- 5)"
    by (simp del: main_loop.simps)
  with a n1 l1 have r5: "snd (eth_dpi_main 0 [] ?s [?p1, ?p2]) = Returned (- 5)"
    by (simp del: main_loop.simps)
  have r1: "snd (eth_dpi_main 0 []
      \<lparr>open_ret = - 1, ioctl_ret = 0, ioctl_errno = 0, getfl_ret = 2\<rparr> []) = Returned (- 1)"
    using return_codes [of 0 "[]" "\<lparr>open_ret = - 1, ioctl_ret = 0, ioctl_errno = 0,
      getfl_ret = 2\<rparr>" "[]", THEN conjunct1]
    by simp
  have r2: "snd (eth_dpi_main 0 []
      \<lparr>open_ret = 3, ioctl_ret = - 1, ioctl_errno = 16, getfl_ret = 2\<rparr> []) = Returned (- 2)"
    using return_codes [of 0 "[]" "\<lparr>open_ret = 3, ioctl_ret = - 1, ioctl_errno = 16,
      getfl_ret = 2\<rparr>" "[]", THEN conjunct1]
    by simp
  from r5 r1 r2 show ?thesis
    by (intro conjI)
qed

text \<open>
  Claim C9. When \<open>select\<close> fails with \<open>EINTR\<close> or with \<open>EAGAIN\<close>, that pass consists of
  the delay of 1000 and the poll and of nothing else (no read, no call to the peer, whatever
  the peer has queued), it leaves the buffer as it was, and the next pass starts again with
  the delay of 1000 followed by the poll.
\<close>

theorem transient_poll_failure_restarts_pass:
  assumes "select_ret p < 0" and "select_errno p = EINTR \<or> select_errno p = EAGAIN"
  shows "loop_body tap_fd buf p = ([EvDelay 1000, EvSelect (tap_fd + 1)], Inr buf)
    \<and> fst (main_loop tap_fd buf (p # q # qs))
        = fst (loop_body tap_fd buf p) @ fst (main_loop tap_fd buf (q # qs))
    \<and> snd (main_loop tap_fd buf (p # q # qs)) = snd (main_loop tap_fd buf (q # qs))
    \<and> take 4 (fst (main_loop tap_fd buf (p # q # qs)))
        = [EvDelay 1000, EvSelect (tap_fd + 1), EvDelay 1000, EvSelect (tap_fd + 1)]"
proof -
  from assms have body: "loop_body tap_fd buf p = ([EvDelay 1000, EvSelect (tap_fd + 1)], Inr buf)"
    by (rule loop_body_retry)
  have next_pass: "take 2 (fst (main_loop tap_fd buf (q # qs)))
      = [EvDelay 1000, EvSelect (tap_fd + 1)]"
  proof -
    obtain rest where "fst (loop_body tap_fd buf q) = EvDelay 1000 # EvSelect (tap_fd + 1) # rest"
      using loop_body_start [of tap_fd buf q] by blast
    then show ?thesis
      by (auto split: prod.splits sum.splits)
  qed
  have whole: "main_loop tap_fd buf (p # q # qs)
      = ([EvDelay 1000, EvSelect (tap_fd + 1)] @ fst (main_loop tap_fd buf (q # qs)),
         snd (main_loop tap_fd buf (q # qs)))"
    using body by (simp split: prod.splits)
  have "take 4 (fst (main_loop tap_fd buf (p # q # qs)))
      = [EvDelay 1000, EvSelect (tap_fd + 1)] @ take 2 (fst (main_loop tap_fd buf (q # qs)))"
    unfolding whole by simp
  with body whole next_pass show ?thesis
    by simp
qed

theorem transient_poll_failure_restarts_pass_witness:
  "select_ret \<lparr>select_ret = - 1, select_errno = EINTR, fd_isset = True, read_in = Some [1, 2],
      npkt_in = 3, pkt_len_in = 2, pkt_data_in = ucast, write_ret = 2\<rparr> < 0
   \<and> loop_body 3 buffer
        \<lparr>select_ret = - 1, select_errno = EINTR, fd_isset = True, read_in = Some [1, 2],
          npkt_in = 3, pkt_len_in = 2, pkt_data_in = ucast, write_ret = 2\<rparr>
      = ([EvDelay 1000, EvSelect 4], Inr buffer)
   \<and> take 4 (fst (main_loop 3 buffer
        [\<lparr>select_ret = - 1, select_errno = EINTR, fd_isset = True, read_in = Some [1, 2],
          npkt_in = 3, pkt_len_in = 2, pkt_data_in = ucast, write_ret = 2\<rparr>,
         \<lparr>select_ret = 0, select_errno = 0, fd_isset = False, read_in = None,
          npkt_in = 0, pkt_len_in = 0, pkt_data_in = ucast, write_ret = 0\<rparr>]))
      = [EvDelay 1000, EvSelect 4, EvDelay 1000, EvSelect 4]"
proof -
  let ?p = "\<lparr>select_ret = - 1, select_errno = EINTR, fd_isset = True, read_in = Some [1, 2],
      npkt_in = 3, pkt_len_in = 2, pkt_data_in = ucast, write_ret = 2\<rparr>"
  let ?q = "\<lparr>select_ret = 0, select_errno = 0, fd_isset = False, read_in = None,
      npkt_in = 0, pkt_len_in = 0, pkt_data_in = ucast, write_ret = 0\<rparr>"
  have h1: "select_ret ?p < 0"
    by simp
  have h2: "select_errno ?p = EINTR \<or> select_errno ?p = EAGAIN"
    by simp
  note w = transient_poll_failure_restarts_pass [OF h1 h2, of 3 buffer ?q "[]"]
  have e: "(3::int) + 1 = 4"
    by simp
  have c1: "loop_body 3 buffer ?p = ([EvDelay 1000, EvSelect 4], Inr buffer)"
    using w [THEN conjunct1] unfolding e .
  have c4: "take 4 (fst (main_loop 3 buffer [?p, ?q]))
      = [EvDelay 1000, EvSelect 4, EvDelay 1000, EvSelect 4]"
    using w [THEN conjunct2, THEN conjunct2, THEN conjunct2] unfolding e .
  from h1 c1 c4 show ?thesis
    by (intro conjI)
qed

text \<open>
  Claim C10. The result of \<open>eth_dpi_main\<close> (its outcome and the whole sequence of its
  calls) is the same for any two argument lists, and the only interface name it ever gives
  to \<open>ioctl\<close> is \<open>tap0\<close>, once, when the device was opened.
\<close>

theorem arguments_ignored:
  "eth_dpi_main argc argv s ps = eth_dpi_main argc' argv' s ps
   \<and> ioctl_names (fst (eth_dpi_main argc argv s ps))
       = (if open_ret s < 0 then [] else [''tap0''])"
proof -
  have "eth_dpi_main argc argv s ps = eth_dpi_main argc' argv' s ps"
    by (simp add: eth_dpi_main_def)
  moreover have "ioctl_names (fst (eth_dpi_main argc argv s ps))
       = (if open_ret s < 0 then [] else [''tap0''])"
    by (simp add: eth_dpi_main_trace ioctl_names_append main_loop_no_ioctl)
  ultimately show ?thesis
    by (intro conjI)
qed

end
